theory Spec2Isabelle
  imports Complex_Main
begin

section \<open>Scores, errors and the game-engine interface\<close>

text \<open>
  The search compares Python numbers: the evaluator returns integers, the engine's
  utility returns an integer or one of \<open>float("inf")\<close>, \<open>float("-inf")\<close>, and the
  loops start from these two sentinels. Python compares an integer with an infinite float
  exactly, so a score is an integer or one of the two infinities, ordered as the numbers are.
\<close>

datatype score = NegInf | Fin int | PosInf

instantiation score :: linorder
begin

fun less_eq_score :: "score \<Rightarrow> score \<Rightarrow> bool" where
  "less_eq_score NegInf y = True"
| "less_eq_score (Fin a) NegInf = False"
| "less_eq_score (Fin a) (Fin b) = (a \<le> b)"
| "less_eq_score (Fin a) PosInf = True"
| "less_eq_score PosInf PosInf = True"
| "less_eq_score PosInf y = False"

definition less_score :: "score \<Rightarrow> score \<Rightarrow> bool" where
  "less_score x y = (x \<le> y \<and> \<not> y \<le> x)"

instance
proof
  fix x y z :: score
  show "(x < y) = (x \<le> y \<and> \<not> y \<le> x)"
    by (simp add: less_score_def)
  show "x \<le> x"
    by (cases x) simp_all
  show "x \<le> y \<Longrightarrow> y \<le> z \<Longrightarrow> x \<le> z"
    by (cases x; cases y; cases z) simp_all
  show "x \<le> y \<Longrightarrow> y \<le> x \<Longrightarrow> x = y"
    by (cases x; cases y) simp_all
  show "x \<le> y \<or> y \<le> x"
    by (cases x; cases y) auto
qed

end

text \<open>
  What the code can raise: \<open>TypeError\<close> when \<open>min\<close>/\<open>max\<close> compare a number with
  \<open>None\<close>, \<open>IndexError\<close> when \<open>random.choice\<close> is given an empty list.
\<close>

datatype error = TypeError | IndexError

text \<open>
  The game state class (module \<open>isolation\<close>) is not part of the sources; the search only
  calls its methods, so the engine is a parameter: a record of the methods and attributes
  the search uses. \<open>actions\<close> returns a list (so the guard \<open>actions != None\<close> of the two
  recursive steps is always true), and \<open>ply_count\<close> counts the plies played.
\<close>

record ('s, 'a, 'l) game =
  actions :: "'s \<Rightarrow> 'a list"
  result :: "'s \<Rightarrow> 'a \<Rightarrow> 's"
  terminal_test :: "'s \<Rightarrow> bool"
  utility :: "'s \<Rightarrow> nat \<Rightarrow> score"
  locs :: "'s \<Rightarrow> nat \<Rightarrow> 'l"
  liberties :: "'s \<Rightarrow> 'l \<Rightarrow> 'l list"
  ply_count :: "'s \<Rightarrow> nat"

section \<open>The agent\<close>

definition BOARD_SIZE :: int where
  "BOARD_SIZE = 99"

text \<open>The fields of \<open>AlphaBetaAgent\<close>; the constructor stores its arguments unchecked.\<close>

record agent =
  agent_player :: nat
  opponent_player :: nat
  h_type :: int

definition AlphaBetaAgent :: "nat \<Rightarrow> nat \<Rightarrow> int \<Rightarrow> agent" where
  "AlphaBetaAgent ap op h = \<lparr>agent_player = ap, opponent_player = op, h_type = h\<rparr>"

text \<open>
  \<open>heuristic\<close>: \<open>None\<close> is Python's \<open>None\<close>, returned when neither \<open>if\<close> applies.
  \<open>ply_count / BOARD_SIZE\<close> is Python's true division of two integers, a correctly rounded
  quotient; since \<open>|p/99 - 1/2| \<ge> 1/198\<close> for every integer \<open>p\<close>, the comparison with
  \<open>0.5\<close> has the outcome of the exact comparison, which is what is written here.
  (The division raises only for integers beyond the range of a float, far above any ply
  count of a board.)
\<close>

definition heuristic :: "('s, 'a, 'l) game \<Rightarrow> agent \<Rightarrow> 's \<Rightarrow> int option" where
  "heuristic g self gameState =
     (let agent_loc = locs g gameState (agent_player self);
          opponent_loc = locs g gameState (opponent_player self);
          agent_liberties = liberties g gameState agent_loc;
          opponent_liberties = liberties g gameState opponent_loc
      in if h_type self = 0
         then Some (int (length agent_liberties) - int (length opponent_liberties))
         else if h_type self = 1
         then (let m = real (ply_count g gameState) / real_of_int BOARD_SIZE
               in if m < 0.5
                  then Some (int (length agent_liberties) - 2 * int (length opponent_liberties))
                  else Some (2 * int (length agent_liberties) - int (length opponent_liberties)))
         else None)"

text \<open>
  \<open>min(value, x)\<close> and \<open>max(value, x)\<close> where \<open>value\<close> is a number and \<open>x\<close> is what a
  recursive step returned: a number, or \<open>None\<close> (then the comparison raises).
\<close>

fun py_min :: "score \<Rightarrow> score option \<Rightarrow> error + score" where
  "py_min value None = Inl TypeError"
| "py_min value (Some x) = Inr (min value x)"

fun py_max :: "score \<Rightarrow> score option \<Rightarrow> error + score" where
  "py_max value None = Inl TypeError"
| "py_max value (Some x) = Inr (max value x)"

text \<open>
  \<open>min_value\<close> and \<open>max_value\<close>, each with its \<open>for\<close> loop over the remaining actions;
  the loop carries \<open>value\<close>, \<open>alpha\<close> and \<open>beta\<close>. A step returns a number or \<open>None\<close>
  (the evaluator's \<open>None\<close> passed through), or raises. \<open>depth\<close> is a Python integer; the
  recursion ends because each call from a loop lowers it by one and a step with
  \<open>depth \<le> 0\<close> does not recurse. The interpreter's limits (stack depth, running time)
  are not part of the model.
\<close>

function
  min_value :: "('s, 'a, 'l) game \<Rightarrow> agent \<Rightarrow> 's \<Rightarrow> score \<Rightarrow> score \<Rightarrow> int \<Rightarrow> error + score option"
and
  min_loop :: "('s, 'a, 'l) game \<Rightarrow> agent \<Rightarrow> 's \<Rightarrow> 'a list \<Rightarrow> score \<Rightarrow> score \<Rightarrow> score
    \<Rightarrow> int \<Rightarrow> error + score option"
and
  max_value :: "('s, 'a, 'l) game \<Rightarrow> agent \<Rightarrow> 's \<Rightarrow> score \<Rightarrow> score \<Rightarrow> int \<Rightarrow> error + score option"
and
  max_loop :: "('s, 'a, 'l) game \<Rightarrow> agent \<Rightarrow> 's \<Rightarrow> 'a list \<Rightarrow> score \<Rightarrow> score \<Rightarrow> score
    \<Rightarrow> int \<Rightarrow> error + score option"
where
  "min_value g self gameState alpha beta depth =
     (if terminal_test g gameState then Inr (Some (utility g gameState (agent_player self)))
      else if depth \<le> 0 then Inr (map_option Fin (heuristic g self gameState))
      else min_loop g self gameState (actions g gameState) PosInf alpha beta depth)"
| "min_loop g self gameState [] value alpha beta depth = Inr (Some value)"
| "min_loop g self gameState (action # rest) value alpha beta depth =
     (case max_value g self (result g gameState action) alpha beta (depth - 1) of
        Inl e \<Rightarrow> Inl e
      | Inr r \<Rightarrow>
          (case py_min value r of
             Inl e \<Rightarrow> Inl e
           | Inr value' \<Rightarrow>
               if value' \<le> alpha then Inr (Some value')
               else min_loop g self gameState rest value' alpha (min beta value') depth))"
| "max_value g self gameState alpha beta depth =
     (if terminal_test g gameState then Inr (Some (utility g gameState (agent_player self)))
      else if depth \<le> 0 then Inr (map_option Fin (heuristic g self gameState))
      else max_loop g self gameState (actions g gameState) NegInf alpha beta depth)"
| "max_loop g self gameState [] value alpha beta depth = Inr (Some value)"
| "max_loop g self gameState (action # rest) value alpha beta depth =
     (case min_value g self (result g gameState action) alpha beta (depth - 1) of
        Inl e \<Rightarrow> Inl e
      | Inr r \<Rightarrow>
          (case py_max value r of
             Inl e \<Rightarrow> Inl e
           | Inr value' \<Rightarrow>
               if value' \<ge> beta then Inr (Some value')
               else max_loop g self gameState rest value' (max alpha value') beta depth))"
  by pat_completeness auto
termination
  by (relation "inv_image (measure id <*lex*> measure id)
     (\<lambda>x. case x of
         Inl (Inl (g, self, s, a, b, d)) \<Rightarrow> (2 * nat d, 0)
       | Inl (Inr (g, self, s, acts, v, a, b, d)) \<Rightarrow>
           (if d \<le> 0 then 1 else 2 * nat d - 1, length acts)
       | Inr (Inl (g, self, s, a, b, d)) \<Rightarrow> (2 * nat d, 0)
       | Inr (Inr (g, self, s, acts, v, a, b, d)) \<Rightarrow>
           (if d \<le> 0 then 1 else 2 * nat d - 1, length acts))")
    auto

text \<open>
  The \<open>for\<close> loop of \<open>minimax_decision\<close> over the remaining actions, carrying \<open>alpha\<close>,
  \<open>best_score\<close> and \<open>best_move\<close> (\<open>None\<close> while unset); \<open>beta\<close> stays \<open>float("inf")\<close>.
  \<open>max(alpha, value)\<close> raises when \<open>value\<close> is \<open>None\<close>, before \<open>value > best_score\<close>
  is reached.
\<close>

fun root_loop :: "('s, 'a, 'l) game \<Rightarrow> agent \<Rightarrow> 's \<Rightarrow> 'a list \<Rightarrow> score \<Rightarrow> score \<Rightarrow> 'a option
    \<Rightarrow> int \<Rightarrow> error + (score \<times> score \<times> 'a option)" where
  "root_loop g self gameState [] alpha best_score best_move depth =
     Inr (alpha, best_score, best_move)"
| "root_loop g self gameState (action # rest) alpha best_score best_move depth =
     (case min_value g self (result g gameState action) alpha PosInf (depth - 1) of
        Inl e \<Rightarrow> Inl e
      | Inr None \<Rightarrow> Inl TypeError
      | Inr (Some value) \<Rightarrow>
          (let alpha' = max alpha value
           in if value > best_score
              then root_loop g self gameState rest alpha' value (Some action) depth
              else root_loop g self gameState rest alpha' best_score best_move depth))"

text \<open>
  \<open>random.choice(seq)\<close>: raises \<open>IndexError\<close> on an empty sequence, otherwise returns the
  element at a random index below the length. The random draw is the parameter \<open>rnd\<close>;
  every index is reached by some draw.
\<close>

definition random_choice :: "nat \<Rightarrow> 'a list \<Rightarrow> error + 'a" where
  "random_choice rnd seq = (if seq = [] then Inl IndexError else Inr (seq ! (rnd mod length seq)))"

definition minimax_decision :: "('s, 'a, 'l) game \<Rightarrow> agent \<Rightarrow> nat \<Rightarrow> 's \<Rightarrow> int \<Rightarrow> error + 'a" where
  "minimax_decision g self rnd gameState depth =
     (case root_loop g self gameState (actions g gameState) NegInf NegInf None depth of
        Inl e \<Rightarrow> Inl e
      | Inr (alpha, best_score, best_move) \<Rightarrow>
          (case best_move of
             None \<Rightarrow> random_choice rnd (actions g gameState)
           | Some move \<Rightarrow> Inr move))"

text \<open>
  \<open>compute\<close> is a generator: it yields the decision of depth 1, then of depth 2, and so on
  up to \<open>max_depth\<close>; an exception in one of the searches ends it. The model returns the
  moves yielded in order, and the exception that ended the generator, if any. \<open>rnd depth\<close>
  is the random draw available to the search of that depth.
\<close>

fun compute_depths :: "('s, 'a, 'l) game \<Rightarrow> agent \<Rightarrow> (int \<Rightarrow> nat) \<Rightarrow> 's \<Rightarrow> int list
    \<Rightarrow> 'a list \<times> error option" where
  "compute_depths g self rnd gameState [] = ([], None)"
| "compute_depths g self rnd gameState (depth # depths) =
     (case minimax_decision g self (rnd depth) gameState depth of
        Inl e \<Rightarrow> ([], Some e)
      | Inr move \<Rightarrow>
          (case compute_depths g self rnd gameState depths of
             (moves, e) \<Rightarrow> (move # moves, e)))"

definition compute :: "('s, 'a, 'l) game \<Rightarrow> agent \<Rightarrow> (int \<Rightarrow> nat) \<Rightarrow> 's \<Rightarrow> int
    \<Rightarrow> 'a list \<times> error option" where
  "compute g self rnd gameState max_depth = compute_depths g self rnd gameState [1..max_depth]"

section \<open>The reference: minimax without pruning\<close>

text \<open>
  The search the pruned one is compared with: the same terminal test, depth horizon,
  evaluator and sentinels, every successor visited, no bounds. It is a search over numbers,
  so it reads the evaluator in its two modes; for another \<open>h_type\<close> the evaluator has no
  number to give (the leaf then counts 0 here, and the comparison below is not stated for it).
\<close>

definition heuristic_score :: "('s, 'a, 'l) game \<Rightarrow> agent \<Rightarrow> 's \<Rightarrow> score" where
  "heuristic_score g self gameState =
     (case heuristic g self gameState of Some v \<Rightarrow> Fin v | None \<Rightarrow> Fin 0)"

function
  full_min_value :: "('s, 'a, 'l) game \<Rightarrow> agent \<Rightarrow> 's \<Rightarrow> int \<Rightarrow> score"
and
  full_max_value :: "('s, 'a, 'l) game \<Rightarrow> agent \<Rightarrow> 's \<Rightarrow> int \<Rightarrow> score"
where
  "full_min_value g self gameState depth =
     (if terminal_test g gameState then utility g gameState (agent_player self)
      else if depth \<le> 0 then heuristic_score g self gameState
      else fold (\<lambda>action value. min value (full_max_value g self (result g gameState action) (depth - 1)))
             (actions g gameState) PosInf)"
| "full_max_value g self gameState depth =
     (if terminal_test g gameState then utility g gameState (agent_player self)
      else if depth \<le> 0 then heuristic_score g self gameState
      else fold (\<lambda>action value. max value (full_min_value g self (result g gameState action) (depth - 1)))
             (actions g gameState) NegInf)"
  by pat_completeness auto
termination
  by (relation "measure (\<lambda>x. case x of Inl (g, self, s, d) \<Rightarrow> nat d | Inr (g, self, s, d) \<Rightarrow> nat d)")
    auto

definition full_root_score :: "('s, 'a, 'l) game \<Rightarrow> agent \<Rightarrow> 's \<Rightarrow> int \<Rightarrow> score" where
  "full_root_score g self gameState depth =
     fold (\<lambda>action value. max value (full_min_value g self (result g gameState action) (depth - 1)))
       (actions g gameState) NegInf"

section \<open>Notions used in the proofs\<close>

text \<open>
  \<open>agrees a b v r\<close>: what a pruned step called with the window \<open>(a, b)\<close> may return
  (\<open>r\<close>) for a position of minimax value \<open>v\<close>: the value itself inside the window, an
  upper bound of the value at or below \<open>a\<close>, a lower bound of it at or above \<open>b\<close>.
\<close>

definition agrees :: "'v::linorder \<Rightarrow> 'v \<Rightarrow> 'v \<Rightarrow> 'v \<Rightarrow> bool" where
  "agrees a b v r = ((r \<le> a \<longrightarrow> v \<le> r) \<and> (b \<le> r \<longrightarrow> r \<le> v) \<and> (a < r \<and> r < b \<longrightarrow> r = v))"

text \<open>
  The loop invariants. In the minimizing loop \<open>beta\<close> is the \<open>beta\<close> of the call
  (\<open>beta0\<close>) lowered to \<open>value\<close>; \<open>V\<close> is the minimum of the successors' minimax
  values so far. The maximizing loop is the mirror image.
\<close>

definition min_inv :: "score \<Rightarrow> score \<Rightarrow> score \<Rightarrow> score \<Rightarrow> score \<Rightarrow> bool" where
  "min_inv alpha beta beta0 value V =
     (alpha < beta0 \<and> alpha < value \<and> beta = min beta0 value
      \<and> (value < beta0 \<longrightarrow> V = value) \<and> (beta0 \<le> value \<longrightarrow> value \<le> V))"

definition max_inv :: "score \<Rightarrow> score \<Rightarrow> score \<Rightarrow> score \<Rightarrow> score \<Rightarrow> bool" where
  "max_inv alpha beta alpha0 value V =
     (alpha0 < beta \<and> value < beta \<and> alpha = max alpha0 value
      \<and> (alpha0 < value \<longrightarrow> V = value) \<and> (value \<le> alpha0 \<longrightarrow> V \<le> value))"

section \<open>Two small games\<close>

text \<open>
  A tree of depth two: from 0 the moves lead to 1 and 2, from 1 to the terminal positions 3
  and 4 (utilities 3 and 5), from 2 to the terminal position 5 (utility 2) and to 6, which
  is not terminal and has no move. A move is named by the position it leads to. The agent
  (player 0) has five liberties everywhere and the opponent three; position \<open>s\<close> has
  ply count \<open>30 + 39 * s\<close>.
\<close>

definition tree_game :: "(nat, nat, nat) game" where
  "tree_game =
     \<lparr>actions = (\<lambda>s. if s = 0 then [1, 2] else if s = 1 then [3, 4] else if s = 2 then [5, 6] else []),
      result = (\<lambda>s a. a),
      terminal_test = (\<lambda>s. s = 3 \<or> s = 4 \<or> s = 5),
      utility = (\<lambda>s p. if s = 3 then Fin 3 else if s = 4 then Fin 5 else Fin 2),
      locs = (\<lambda>s p. p),
      liberties = (\<lambda>s l. if l = 0 then [1, 2, 3, 4, 5] else [1, 2, 3]),
      ply_count = (\<lambda>s. 30 + 39 * s)\<rparr>"

text \<open>A lost position: both moves from 0 end the game with the agent losing.\<close>

definition lose_game :: "(nat, nat, nat) game" where
  "lose_game =
     \<lparr>actions = (\<lambda>s. if s = 0 then [1, 2] else []),
      result = (\<lambda>s a. a),
      terminal_test = (\<lambda>s. s \<noteq> 0),
      utility = (\<lambda>s p. NegInf),
      locs = (\<lambda>s p. p),
      liberties = (\<lambda>s l. []),
      ply_count = (\<lambda>s. 0)\<rparr>"

text \<open>A random source whose every draw is 0.\<close>

definition zero_draws :: "int \<Rightarrow> nat" where
  "zero_draws depth = 0"

section \<open>Facts about scores\<close>

lemma score_less_simps [simp]:
  "NegInf < Fin a" "NegInf < PosInf" "Fin a < PosInf" "(Fin a < Fin b) = (a < b)"
  by (auto simp add: less_score_def)

lemma score_not_less [simp]: "\<not> x < NegInf" "\<not> PosInf < x"
  by (cases x; simp add: less_score_def)+

lemma score_le_simps [simp]:
  "x \<le> PosInf" "(x \<le> NegInf) = (x = NegInf)" "(PosInf \<le> x) = (x = PosInf)"
  by (cases x; simp)+

lemma score_min_max_simps [simp]:
  "min PosInf x = x" "min x PosInf = x" "max NegInf x = x" "max x NegInf = x"
  "max PosInf x = PosInf" "max x PosInf = PosInf" "min NegInf x = NegInf" "min x NegInf = NegInf"
  by (simp_all add: min_def max_def)

lemma score_gt_NegInf_iff: "(NegInf < x) = (x \<noteq> NegInf)"
  by (cases x) simp_all

lemma score_lt_PosInf_iff: "(x < PosInf) = (x \<noteq> PosInf)"
  by (cases x) simp_all

declare min_value.simps [simp del] max_value.simps [simp del]
  full_min_value.simps [simp del] full_max_value.simps [simp del]

section \<open>Pruning steps in a linear order\<close>

lemma min_step_return:
  fixes a :: "'v::linorder"
  assumes "a < b0" "a < val" "agrees a (min b0 val) w x" "min val x \<le> a" "v \<le> w"
  shows "agrees a b0 v (min val x)"
  using assms unfolding agrees_def by (auto simp: min_def split: if_splits)

lemma min_step_continue:
  fixes a :: "'v::linorder"
  assumes "a < b0" "a < val" "val < b0 \<longrightarrow> V = val" "b0 \<le> val \<longrightarrow> val \<le> V"
    "agrees a (min b0 val) w x" "\<not> min val x \<le> a"
  shows "(min val x < b0 \<longrightarrow> min V w = min val x) \<and> (b0 \<le> min val x \<longrightarrow> min val x \<le> min V w)
     \<and> a < min val x \<and> min (min b0 val) (min val x) = min b0 (min val x)"
  using assms unfolding agrees_def by (auto simp: min_def split: if_splits)

lemma min_step_done:
  fixes a :: "'v::linorder"
  assumes "a < val" "val < b0 \<longrightarrow> V = val" "b0 \<le> val \<longrightarrow> val \<le> V"
  shows "agrees a b0 V val"
  using assms unfolding agrees_def by auto

lemma max_step_return:
  fixes a0 :: "'v::linorder"
  assumes "a0 < b" "val < b" "agrees (max a0 val) b w x" "b \<le> max val x" "w \<le> v"
  shows "agrees a0 b v (max val x)"
  using assms unfolding agrees_def by (auto simp: max_def split: if_splits)

lemma max_step_continue:
  fixes a0 :: "'v::linorder"
  assumes "a0 < b" "val < b" "a0 < val \<longrightarrow> V = val" "val \<le> a0 \<longrightarrow> V \<le> val"
    "agrees (max a0 val) b w x" "\<not> b \<le> max val x"
  shows "(a0 < max val x \<longrightarrow> max V w = max val x) \<and> (max val x \<le> a0 \<longrightarrow> max V w \<le> max val x)
     \<and> max val x < b \<and> max (max a0 val) (max val x) = max a0 (max val x)"
  using assms unfolding agrees_def by (auto simp: max_def split: if_splits)

lemma max_step_done:
  fixes a0 :: "'v::linorder"
  assumes "val < b" "a0 < val \<longrightarrow> V = val" "val \<le> a0 \<longrightarrow> V \<le> val"
  shows "agrees a0 b V val"
  using assms unfolding agrees_def by auto

lemma fold_min_le: "fold (\<lambda>a v. min v (f a)) xs (V::'v::linorder) \<le> V"
  by (induction xs arbitrary: V) (auto intro: order_trans [OF _ min.cobounded1])

lemma fold_max_ge: "(V::'v::linorder) \<le> fold (\<lambda>a v. max v (f a)) xs V"
  by (induction xs arbitrary: V) (auto intro: order_trans [OF max.cobounded1])

section \<open>The pruned steps against the reference\<close>

lemma heuristic_valid:
  "h_type self = 0 \<or> h_type self = 1 \<Longrightarrow>
   map_option Fin (heuristic g self s) = Some (heuristic_score g self s)"
  by (auto simp: heuristic_def heuristic_score_def Let_def)

lemma agrees_refl: "agrees a b v v"
  by (simp add: agrees_def)

lemma ab_sound:
  fixes g :: "('s, 'a, 'l) game"
  assumes valid: "h_type self = 0 \<or> h_type self = 1"
  shows "\<exists>r. min_value g self s alpha beta d = Inr (Some r)
           \<and> (alpha < beta \<longrightarrow> agrees alpha beta (full_min_value g self s d) r)"
    and "\<exists>r. min_loop g self s acts val alpha beta d = Inr (Some r)
           \<and> (\<forall>beta0 V. min_inv alpha beta beta0 val V \<longrightarrow>
                agrees alpha beta0
                  (fold (\<lambda>a v. min v (full_max_value g self (result g s a) (d - 1))) acts V) r)"
    and "\<exists>r. max_value g self s alpha beta d = Inr (Some r)
           \<and> (alpha < beta \<longrightarrow> agrees alpha beta (full_max_value g self s d) r)"
    and "\<exists>r. max_loop g self s acts val alpha beta d = Inr (Some r)
           \<and> (\<forall>alpha0 V. max_inv alpha beta alpha0 val V \<longrightarrow>
                agrees alpha0 beta
                  (fold (\<lambda>a v. max v (full_min_value g self (result g s a) (d - 1))) acts V) r)"
  using valid
proof (induction g self s alpha beta d and g self s acts val alpha beta d
    and g self s alpha beta d and g self s acts val alpha beta d
    rule: min_value_min_loop_max_value_max_loop.induct)
  case (1 g self s alpha beta d)
  show ?case
  proof (cases "terminal_test g s \<or> d \<le> 0")
    case True
    with "1.prems" show ?thesis
      by (auto simp: min_value.simps full_min_value.simps heuristic_valid agrees_refl)
  next
    case False
    with "1.IH" "1.prems" obtain r where
      r: "min_loop g self s (actions g s) PosInf alpha beta d = Inr (Some r)"
      and ag: "\<And>beta0 V. min_inv alpha beta beta0 PosInf V \<Longrightarrow>
        agrees alpha beta0
          (fold (\<lambda>a v. min v (full_max_value g self (result g s a) (d - 1))) (actions g s) V) r"
      by blast
    have "agrees alpha beta (full_min_value g self s d) r" if "alpha < beta"
    proof -
      from that have "min_inv alpha beta beta PosInf PosInf"
        by (auto simp: min_inv_def score_lt_PosInf_iff)
      from ag [OF this] False show ?thesis
        by (simp add: full_min_value.simps)
    qed
    with r False show ?thesis
      by (simp add: min_value.simps)
  qed
next
  case (2 g self s val alpha beta d)
  show ?case
    by (auto simp: min_inv_def intro: min_step_done)
next
  case (3 g self s action rest val alpha beta d)
  let ?w = "full_max_value g self (result g s action) (d - 1)"
  from "3.IH"(1) "3.prems" obtain x where
    x: "max_value g self (result g s action) alpha beta (d - 1) = Inr (Some x)"
    and agx: "alpha < beta \<Longrightarrow> agrees alpha beta ?w x"
    by blast
  show ?case
  proof (cases "min val x \<le> alpha")
    case True
    have "agrees alpha beta0
        (fold (\<lambda>a v. min v (full_max_value g self (result g s a) (d - 1))) (action # rest) V)
        (min val x)" if inv: "min_inv alpha beta beta0 val V" for beta0 V
    proof -
      from inv have "alpha < beta" by (auto simp: min_inv_def)
      from agx [OF this] inv have "agrees alpha (min beta0 val) ?w x"
        by (simp add: min_inv_def)
      moreover have "fold (\<lambda>a v. min v (full_max_value g self (result g s a) (d - 1))) rest (min V ?w) \<le> ?w"
        by (rule order_trans [OF fold_min_le]) simp
      ultimately show ?thesis
        using inv True by (auto simp: min_inv_def intro: min_step_return)
    qed
    with x True show ?thesis by simp
  next
    case False
    from "3.IH"(2) [OF x _ False] "3.prems" obtain r where
      r: "min_loop g self s rest (min val x) alpha (min beta (min val x)) d = Inr (Some r)"
      and ag: "\<And>beta0 V. min_inv alpha (min beta (min val x)) beta0 (min val x) V \<Longrightarrow>
        agrees alpha beta0
          (fold (\<lambda>a v. min v (full_max_value g self (result g s a) (d - 1))) rest V) r"
      by auto
    have "agrees alpha beta0
        (fold (\<lambda>a v. min v (full_max_value g self (result g s a) (d - 1))) (action # rest) V) r"
      if inv: "min_inv alpha beta beta0 val V" for beta0 V
    proof -
      from inv have "alpha < beta" by (auto simp: min_inv_def)
      from agx [OF this] inv have "agrees alpha (min beta0 val) ?w x"
        by (simp add: min_inv_def)
      with inv False have "min_inv alpha (min beta (min val x)) beta0 (min val x) (min V ?w)"
        unfolding min_inv_def using min_step_continue [of alpha beta0 val V ?w x] by blast
      from ag [OF this] show ?thesis by simp
    qed
    with x r False show ?thesis by simp
  qed
next
  case (4 g self s alpha beta d)
  show ?case
  proof (cases "terminal_test g s \<or> d \<le> 0")
    case True
    with "4.prems" show ?thesis
      by (auto simp: max_value.simps full_max_value.simps heuristic_valid agrees_refl)
  next
    case False
    with "4.IH" "4.prems" obtain r where
      r: "max_loop g self s (actions g s) NegInf alpha beta d = Inr (Some r)"
      and ag: "\<And>alpha0 V. max_inv alpha beta alpha0 NegInf V \<Longrightarrow>
        agrees alpha0 beta
          (fold (\<lambda>a v. max v (full_min_value g self (result g s a) (d - 1))) (actions g s) V) r"
      by blast
    have "agrees alpha beta (full_max_value g self s d) r" if "alpha < beta"
    proof -
      from that have "max_inv alpha beta alpha NegInf NegInf"
        by (auto simp: max_inv_def score_gt_NegInf_iff)
      from ag [OF this] False show ?thesis
        by (simp add: full_max_value.simps)
    qed
    with r False show ?thesis
      by (simp add: max_value.simps)
  qed
next
  case (5 g self s val alpha beta d)
  show ?case
    by (auto simp: max_inv_def intro: max_step_done)
next
  case (6 g self s action rest val alpha beta d)
  let ?w = "full_min_value g self (result g s action) (d - 1)"
  from "6.IH"(1) "6.prems" obtain x where
    x: "min_value g self (result g s action) alpha beta (d - 1) = Inr (Some x)"
    and agx: "alpha < beta \<Longrightarrow> agrees alpha beta ?w x"
    by blast
  show ?case
  proof (cases "beta \<le> max val x")
    case True
    have "agrees alpha0 beta
        (fold (\<lambda>a v. max v (full_min_value g self (result g s a) (d - 1))) (action # rest) V)
        (max val x)" if inv: "max_inv alpha beta alpha0 val V" for alpha0 V
    proof -
      from inv have "alpha < beta" by (auto simp: max_inv_def)
      from agx [OF this] inv have "agrees (max alpha0 val) beta ?w x"
        by (simp add: max_inv_def)
      moreover have "?w \<le> fold (\<lambda>a v. max v (full_min_value g self (result g s a) (d - 1))) rest (max V ?w)"
        by (rule order_trans [OF _ fold_max_ge]) simp
      ultimately show ?thesis
        using inv True by (auto simp: max_inv_def intro: max_step_return)
    qed
    with x True show ?thesis by simp
  next
    case False
    from "6.IH"(2) [OF x _ False] "6.prems" obtain r where
      r: "max_loop g self s rest (max val x) (max alpha (max val x)) beta d = Inr (Some r)"
      and ag: "\<And>alpha0 V. max_inv (max alpha (max val x)) beta alpha0 (max val x) V \<Longrightarrow>
        agrees alpha0 beta
          (fold (\<lambda>a v. max v (full_min_value g self (result g s a) (d - 1))) rest V) r"
      by auto
    have "agrees alpha0 beta
        (fold (\<lambda>a v. max v (full_min_value g self (result g s a) (d - 1))) (action # rest) V) r"
      if inv: "max_inv alpha beta alpha0 val V" for alpha0 V
    proof -
      from inv have "alpha < beta" by (auto simp: max_inv_def)
      from agx [OF this] inv have "agrees (max alpha0 val) beta ?w x"
        by (simp add: max_inv_def)
      with inv False have "max_inv (max alpha (max val x)) beta alpha0 (max val x) (max V ?w)"
        unfolding max_inv_def using max_step_continue [of alpha0 beta val V ?w x] by blast
      from ag [OF this] show ?thesis by simp
    qed
    with x r False show ?thesis by simp
  qed
qed

section \<open>The root loop\<close>

lemma fold_max_upper:
  "a \<in> set xs \<Longrightarrow> f a \<le> fold (\<lambda>a v. max v (f a)) xs (V::'v::linorder)"
proof (induction xs arbitrary: V)
  case Nil
  then show ?case by simp
next
  case (Cons y ys)
  show ?case
  proof (cases "a = y")
    case True
    have "f y \<le> max V (f y)" by simp
    also have "\<dots> \<le> fold (\<lambda>a v. max v (f a)) ys (max V (f y))" by (rule fold_max_ge)
    finally show ?thesis using True by simp
  next
    case False
    with Cons.prems have "a \<in> set ys" by simp
    from Cons.IH [OF this] show ?thesis by simp
  qed
qed

lemma root_child:
  fixes g :: "('s, 'a, 'l) game"
  assumes valid: "h_type self = 0 \<or> h_type self = 1"
  shows "\<exists>x. min_value g self s B PosInf d = Inr (Some x)
     \<and> max B x = max B (full_min_value g self s d)
     \<and> (B < x \<longrightarrow> x = full_min_value g self s d)
     \<and> (x \<le> B \<longrightarrow> full_min_value g self s d \<le> B)"
proof -
  from ab_sound(1) [OF valid, of g s B PosInf d] obtain x where
    x: "min_value g self s B PosInf d = Inr (Some x)"
    and ag: "B < PosInf \<Longrightarrow> agrees B PosInf (full_min_value g self s d) x"
    by blast
  let ?w = "full_min_value g self s d"
  show ?thesis
  proof (cases "B = PosInf")
    case True
    with x show ?thesis by simp
  next
    case False
    then have "B < PosInf" by (simp add: score_lt_PosInf_iff)
    from ag [OF this] have
      a1: "x \<le> B \<Longrightarrow> ?w \<le> x" and a2: "x = PosInf \<Longrightarrow> ?w = PosInf"
      and a3: "B < x \<Longrightarrow> x \<noteq> PosInf \<Longrightarrow> x = ?w"
      by (auto simp: agrees_def score_lt_PosInf_iff)
    have gt: "x = ?w" if "B < x"
      using that a2 a3 by (cases "x = PosInf") auto
    have le: "?w \<le> B" if "x \<le> B"
      using that a1 by (blast intro: order_trans)
    have "max B x = max B ?w"
    proof (cases "B < x")
      case True
      with gt show ?thesis by simp
    next
      case False
      then have "x \<le> B" by simp
      with le show ?thesis by (simp add: max_absorb1)
    qed
    with x gt le show ?thesis by blast
  qed
qed

lemma root_loop_spec:
  fixes g :: "('s, 'a, 'l) game"
  assumes valid: "h_type self = 0 \<or> h_type self = 1"
  shows "root_loop g self s acts B B bm d =
     Inr (fold (\<lambda>a v. max v (full_min_value g self (result g s a) (d - 1))) acts B,
          fold (\<lambda>a v. max v (full_min_value g self (result g s a) (d - 1))) acts B,
          if B < fold (\<lambda>a v. max v (full_min_value g self (result g s a) (d - 1))) acts B
          then find (\<lambda>a. full_min_value g self (result g s a) (d - 1)
                 = fold (\<lambda>a v. max v (full_min_value g self (result g s a) (d - 1))) acts B) acts
          else bm)"
proof (induction acts arbitrary: B bm)
  case Nil
  show ?case by simp
next
  case (Cons a rest)
  let ?W = "\<lambda>a. full_min_value g self (result g s a) (d - 1)"
  let ?F = "\<lambda>xs V. fold (\<lambda>a v. max v (?W a)) xs V"
  from root_child [OF valid, of g "result g s a" B "d - 1"] obtain x where
    x: "min_value g self (result g s a) B PosInf (d - 1) = Inr (Some x)"
    and mx: "max B x = max B (?W a)"
    and gt: "B < x \<Longrightarrow> x = ?W a"
    and le: "x \<le> B \<Longrightarrow> ?W a \<le> B"
    by blast
  show ?case
  proof (cases "B < x")
    case True
    then have xw: "x = ?W a" and mB: "max B (?W a) = ?W a"
      using gt by (auto simp: max_def)
    have M: "?W a \<le> ?F rest (?W a)" by (rule fold_max_ge)
    with True xw have BM: "B < ?F rest (?W a)" by (auto intro: less_le_trans)
    have "root_loop g self s (a # rest) B B bm d = root_loop g self s rest (?W a) (?W a) (Some a) d"
      using x True xw mB by (simp add: Let_def)
    also have "\<dots> = Inr (?F rest (?W a), ?F rest (?W a),
        if ?W a < ?F rest (?W a) then find (\<lambda>a'. ?W a' = ?F rest (?W a)) rest else Some a)"
      by (rule Cons.IH)
    finally show ?thesis
      using BM M by (auto simp: mB)
  next
    case False
    then have xB: "x \<le> B" by simp
    from le [OF this] have wB: "?W a \<le> B" and mB: "max B (?W a) = B"
      by (auto simp: max_def)
    have "root_loop g self s (a # rest) B B bm d = root_loop g self s rest B B bm d"
      using x False xB by (simp add: Let_def max_absorb1)
    also have "\<dots> = Inr (?F rest B, ?F rest B,
        if B < ?F rest B then find (\<lambda>a'. ?W a' = ?F rest B) rest else bm)"
      by (rule Cons.IH)
    finally show ?thesis
      using wB by (auto simp: mB)
  qed
qed

lemma root_loop_move_mem:
  "root_loop g self s acts alpha bs bm d = Inr (alpha', bs', Some m) \<Longrightarrow>
   m \<in> set acts \<or> bm = Some m"
proof (induction acts arbitrary: alpha bs bm)
  case Nil
  then show ?case by simp
next
  case (Cons a rest)
  then show ?case
    by (fastforce simp: Let_def split: sum.splits option.splits if_splits)
qed

lemma root_loop_none_iff:
  "root_loop g self s acts alpha bs bm d = Inr (alpha', bs', bm') \<Longrightarrow>
   (bm = None) = (bs = NegInf) \<Longrightarrow> (bm' = None) = (bs' = NegInf)"
proof (induction acts arbitrary: alpha bs bm)
  case Nil
  then show ?case by simp
next
  case (Cons a rest)
  from Cons.prems(1) obtain x where
    x: "min_value g self (result g s a) alpha PosInf (d - 1) = Inr (Some x)"
    by (auto split: sum.splits option.splits)
  show ?case
  proof (cases "bs < x")
    case True
    then have "x \<noteq> NegInf" by auto
    with Cons.prems x True Cons.IH [of "max alpha x" x "Some a"] show ?thesis
      by (simp add: Let_def)
  next
    case False
    with Cons.prems x Cons.IH [of "max alpha x" bs bm] show ?thesis
      by (simp add: Let_def)
  qed
qed

lemma random_choice_mem: "random_choice rnd xs = Inr m \<Longrightarrow> m \<in> set xs"
  by (auto simp: random_choice_def split: if_splits)

section \<open>The decision at the root\<close>

lemma fold_max_attained:
  "V < fold (\<lambda>a v. max v (f a)) xs V \<Longrightarrow>
   \<exists>a\<in>set xs. f a = fold (\<lambda>a v. max v (f a)) xs (V::'v::linorder)"
proof (induction xs arbitrary: V)
  case Nil
  then show ?case by simp
next
  case (Cons y ys)
  let ?V' = "max V (f y)"
  show ?case
  proof (cases "?V' < fold (\<lambda>a v. max v (f a)) ys ?V'")
    case True
    from Cons.IH [OF this] show ?thesis by auto
  next
    case False
    with fold_max_ge [of ?V' f ys] have eq: "fold (\<lambda>a v. max v (f a)) ys ?V' = ?V'"
      by (metis order_le_less)
    with Cons.prems have "V < ?V'" by simp
    then have "?V' = f y" by (simp add: max_def split: if_splits)
    with eq show ?thesis by simp
  qed
qed

lemma fold_max_NegInf_iff:
  "(fold (\<lambda>a v. max v (f a)) xs NegInf = NegInf) = (\<forall>a\<in>set xs. f a = NegInf)"
proof
  assume eq: "fold (\<lambda>a v. max v (f a)) xs NegInf = NegInf"
  show "\<forall>a\<in>set xs. f a = NegInf"
  proof
    fix a assume "a \<in> set xs"
    from fold_max_upper [OF this, of f NegInf] eq show "f a = NegInf" by simp
  qed
next
  assume all: "\<forall>a\<in>set xs. f a = NegInf"
  show "fold (\<lambda>a v. max v (f a)) xs NegInf = NegInf"
  proof (rule ccontr)
    assume "fold (\<lambda>a v. max v (f a)) xs NegInf \<noteq> NegInf"
    then have "NegInf < fold (\<lambda>a v. max v (f a)) xs NegInf"
      by (simp add: score_gt_NegInf_iff)
    from fold_max_attained [OF this] all this show False by auto
  qed
qed

lemma decision_valid:
  fixes g :: "('s, 'a, 'l) game"
  assumes valid: "h_type self = 0 \<or> h_type self = 1"
  shows "minimax_decision g self rnd s d =
     (if NegInf < full_root_score g self s d
      then (case find (\<lambda>a. full_min_value g self (result g s a) (d - 1) = full_root_score g self s d)
                   (actions g s) of
              None \<Rightarrow> random_choice rnd (actions g s)
            | Some m \<Rightarrow> Inr m)
      else random_choice rnd (actions g s))"
  by (simp add: minimax_decision_def root_loop_spec [OF valid] full_root_score_def)

lemma decision_first:
  fixes g :: "('s, 'a, 'l) game"
  assumes valid: "h_type self = 0 \<or> h_type self = 1"
    and best: "NegInf < full_root_score g self s d"
  shows "\<exists>m. find (\<lambda>a. full_min_value g self (result g s a) (d - 1) = full_root_score g self s d)
            (actions g s) = Some m
     \<and> (\<forall>rnd. minimax_decision g self rnd s d = Inr m)"
proof -
  let ?P = "\<lambda>a. full_min_value g self (result g s a) (d - 1) = full_root_score g self s d"
  from best fold_max_attained [of NegInf "\<lambda>a. full_min_value g self (result g s a) (d - 1)" "actions g s"]
  have "\<exists>a\<in>set (actions g s). ?P a"
    by (simp add: full_root_score_def)
  then have "find ?P (actions g s) \<noteq> None"
    by (auto simp: find_None_iff)
  then obtain m where m: "find ?P (actions g s) = Some m" by auto
  with best have "minimax_decision g self rnd s d = Inr m" for rnd
    by (simp add: decision_valid [OF valid])
  with m show ?thesis by blast
qed

lemma decision_attains:
  fixes g :: "('s, 'a, 'l) game"
  assumes valid: "h_type self = 0 \<or> h_type self = 1"
    and dec: "minimax_decision g self rnd s d = Inr m"
  shows "m \<in> set (actions g s)
     \<and> full_min_value g self (result g s m) (d - 1) = full_root_score g self s d"
proof (cases "NegInf < full_root_score g self s d")
  case True
  from decision_first [OF valid True] dec obtain m' where
    "find (\<lambda>a. full_min_value g self (result g s a) (d - 1) = full_root_score g self s d)
       (actions g s) = Some m'" and "m' = m"
    by auto
  then show ?thesis by (auto simp: find_Some_iff)
next
  case False
  then have M: "full_root_score g self s d = NegInf"
    by (simp add: score_gt_NegInf_iff)
  from dec False have "random_choice rnd (actions g s) = Inr m"
    by (simp add: decision_valid [OF valid])
  then have mem: "m \<in> set (actions g s)" by (rule random_choice_mem)
  with M fold_max_NegInf_iff [of "\<lambda>a. full_min_value g self (result g s a) (d - 1)" "actions g s"]
  show ?thesis by (simp add: full_root_score_def)
qed

lemma decision_total:
  fixes g :: "('s, 'a, 'l) game"
  assumes valid: "h_type self = 0 \<or> h_type self = 1"
    and moves: "actions g s \<noteq> []"
  shows "\<exists>m. minimax_decision g self rnd s d = Inr m"
proof (cases "NegInf < full_root_score g self s d")
  case True
  from decision_first [OF valid True] show ?thesis by blast
next
  case False
  with moves show ?thesis
    by (simp add: decision_valid [OF valid] random_choice_def)
qed

lemma decision_legal:
  assumes dec: "minimax_decision g self rnd s d = Inr m"
  shows "m \<in> set (actions g s)"
proof -
  from dec obtain alpha bs bm where
    rl: "root_loop g self s (actions g s) NegInf NegInf None d = Inr (alpha, bs, bm)"
    by (auto simp: minimax_decision_def split: sum.splits)
  show ?thesis
  proof (cases bm)
    case None
    with dec rl have "random_choice rnd (actions g s) = Inr m"
      by (simp add: minimax_decision_def)
    then show ?thesis by (rule random_choice_mem)
  next
    case (Some m')
    with dec rl have "m' = m" by (simp add: minimax_decision_def)
    with rl Some root_loop_move_mem [of g self s "actions g s" NegInf NegInf None d alpha bs m]
    show ?thesis by simp
  qed
qed

lemma compute_depths_total:
  assumes "\<forall>d\<in>set ds. \<exists>m. minimax_decision g self (rnd d) s d = Inr m"
  shows "\<exists>ms. compute_depths g self rnd s ds = (ms, None) \<and> length ms = length ds
     \<and> (\<forall>i<length ds. minimax_decision g self (rnd (ds ! i)) s (ds ! i) = Inr (ms ! i))"
  using assms
proof (induction ds)
  case Nil
  show ?case by simp
next
  case (Cons d ds)
  from Cons.prems obtain m where m: "minimax_decision g self (rnd d) s d = Inr m"
    by auto
  from Cons.IH Cons.prems obtain ms where
    ms: "compute_depths g self rnd s ds = (ms, None)" "length ms = length ds"
    "\<forall>i<length ds. minimax_decision g self (rnd (ds ! i)) s (ds ! i) = Inr (ms ! i)"
    by auto
  have "\<forall>i<length (d # ds).
      minimax_decision g self (rnd ((d # ds) ! i)) s ((d # ds) ! i) = Inr ((m # ms) ! i)"
  proof (intro allI impI)
    fix i assume "i < length (d # ds)"
    with m ms(3) show "minimax_decision g self (rnd ((d # ds) ! i)) s ((d # ds) ! i) = Inr ((m # ms) ! i)"
      by (cases i) auto
  qed
  with m ms(1,2) show ?case by simp
qed

lemma decision_no_moves:
  "actions g s = [] \<Longrightarrow> minimax_decision g self rnd s d = Inl IndexError"
  by (simp add: minimax_decision_def random_choice_def)

lemma compute_no_moves:
  assumes "actions g s = []" and "1 \<le> max_depth"
  shows "compute g self rnd s max_depth = ([], Some IndexError)"
proof -
  from assms(2) have "[1..max_depth] = 1 # [2..max_depth]"
    by (simp add: upto_rec1)
  with decision_no_moves [OF assms(1)] show ?thesis
    by (simp add: compute_def)
qed

section \<open>The claims\<close>

subsection \<open>The evaluator\<close>

text \<open>
  C6. In the phase-adaptive mode (\<open>h_type = 1\<close>), with the fill ratio
  \<open>r = ply_count / BOARD_SIZE\<close>, the evaluator returns the agent's mobility minus twice the
  opponent's when \<open>r < 0.5\<close>, and twice the agent's mobility minus the opponent's otherwise.
  So with mobilities 5 and 3 it returns \<open>-1\<close> at every ratio below one half (0.3 among
  them) and 7 at every other ratio (0.7 among them).
\<close>

theorem heuristic_phase_adaptive:
  "h_type self = 1 \<Longrightarrow>
   heuristic g self gameState =
     Some (if real (ply_count g gameState) / real_of_int BOARD_SIZE < 1 / 2
           then int (length (liberties g gameState (locs g gameState (agent_player self))))
                - 2 * int (length (liberties g gameState (locs g gameState (opponent_player self))))
           else 2 * int (length (liberties g gameState (locs g gameState (agent_player self))))
                - int (length (liberties g gameState (locs g gameState (opponent_player self)))))"
  by (simp add: heuristic_def Let_def)

text \<open>
  Ply counts are whole numbers and the board has 99 cells, so the ratios nearest to 0.3 and
  0.7 are 30/99 and 69/99: positions 0 and 1 of the tree game, with mobilities 5 and 3.
\<close>

theorem heuristic_phase_adaptive_witness:
  "h_type (AlphaBetaAgent 0 1 1) = 1
   \<and> ply_count tree_game 0 = 30 \<and> ply_count tree_game 1 = 69
   \<and> heuristic tree_game (AlphaBetaAgent 0 1 1) 0 = Some (- 1)
   \<and> heuristic tree_game (AlphaBetaAgent 0 1 1) 1 = Some 7"
proof -
  have h: "h_type (AlphaBetaAgent 0 1 1) = 1"
    by (simp add: AlphaBetaAgent_def)
  from heuristic_phase_adaptive [OF h, of tree_game 0] heuristic_phase_adaptive [OF h, of tree_game 1] h
  show ?thesis
    by (simp add: tree_game_def AlphaBetaAgent_def BOARD_SIZE_def)
qed

text \<open>
  C10. The constructor stores any \<open>h_type\<close>; for every \<open>h_type\<close> other than 0 and 1 the
  evaluator returns \<open>None\<close> at every position, and raises nothing.
\<close>

theorem heuristic_unknown_mode:
  "h \<noteq> 0 \<Longrightarrow> h \<noteq> 1 \<Longrightarrow>
   h_type (AlphaBetaAgent ap op h) = h \<and> heuristic g (AlphaBetaAgent ap op h) gameState = None"
  by (simp add: heuristic_def AlphaBetaAgent_def Let_def)

theorem heuristic_unknown_mode_witness:
  "(2::int) \<noteq> 0 \<and> (2::int) \<noteq> 1 \<and> heuristic tree_game (AlphaBetaAgent 0 1 2) 0 = None"
proof -
  have a: "(2::int) \<noteq> 0" and b: "(2::int) \<noteq> 1" by simp_all
  from heuristic_unknown_mode [OF a b, of 0 1 tree_game 0] a b show ?thesis by simp
qed

text \<open>
  C9, as stated, fails: position 3 of the tree game is terminal, and the evaluator returns
  a score there in both modes; nothing is raised.
\<close>

theorem heuristic_terminal_counterexample:
  "terminal_test tree_game 3
   \<and> heuristic tree_game (AlphaBetaAgent 0 1 1) 3 = Some 7
   \<and> heuristic tree_game (AlphaBetaAgent 0 1 0) 3 = Some 2"
  by (simp add: heuristic_def tree_game_def AlphaBetaAgent_def BOARD_SIZE_def)

text \<open>
  C9, amended. The evaluator makes no terminal test: at a terminal position, in both
  heuristic modes, it returns a score, the one it returns when the engine reports the same
  position as not terminal. (The search does not call it there: C4.)
\<close>

theorem heuristic_ignores_terminal:
  fixes g :: "('s, 'a, 'l) game"
  assumes "terminal_test g gameState" and "h_type self = 0 \<or> h_type self = 1"
  shows "(\<exists>score. heuristic g self gameState = Some score)
     \<and> heuristic g self gameState
         = heuristic (g\<lparr>terminal_test := \<lambda>s. False\<rparr>) self gameState"
  using assms(2) by (auto simp: heuristic_def Let_def)

theorem heuristic_ignores_terminal_witness:
  "terminal_test tree_game 3
   \<and> (h_type (AlphaBetaAgent 0 1 1) = 0 \<or> h_type (AlphaBetaAgent 0 1 1) = 1)
   \<and> heuristic tree_game (AlphaBetaAgent 0 1 1) 3 = Some 7
   \<and> heuristic (tree_game\<lparr>terminal_test := \<lambda>s. False\<rparr>) (AlphaBetaAgent 0 1 1) 3 = Some 7"
proof -
  have t: "terminal_test tree_game 3"
    by (simp add: tree_game_def)
  have h: "h_type (AlphaBetaAgent 0 1 1) = 0 \<or> h_type (AlphaBetaAgent 0 1 1) = 1"
    by (simp add: AlphaBetaAgent_def)
  have v: "heuristic tree_game (AlphaBetaAgent 0 1 1) 3 = Some 7"
    by (simp add: heuristic_def tree_game_def AlphaBetaAgent_def BOARD_SIZE_def)
  from heuristic_ignores_terminal [OF t h] v t h show ?thesis by simp
qed

subsection \<open>The recursive steps\<close>

text \<open>
  C4. At a terminal position both recursive steps return the engine's utility for the
  agent, for every remaining depth (also zero or negative), every window and every
  \<open>h_type\<close>: the terminal test comes before the depth test, and the evaluator is not
  consulted.
\<close>

theorem terminal_override:
  "terminal_test g gameState \<Longrightarrow>
     min_value g self gameState alpha beta depth = Inr (Some (utility g gameState (agent_player self)))
   \<and> max_value g self gameState alpha beta depth = Inr (Some (utility g gameState (agent_player self)))"
  by (simp add: min_value.simps max_value.simps)

text \<open>
  In the tree game position 3 is terminal with utility 3, while the evaluator would give 7
  there: at depth 0 and below the steps return 3.
\<close>

theorem terminal_override_witness:
  "terminal_test tree_game 3
   \<and> heuristic tree_game (AlphaBetaAgent 0 1 1) 3 = Some 7
   \<and> min_value tree_game (AlphaBetaAgent 0 1 1) 3 NegInf PosInf 0 = Inr (Some (Fin 3))
   \<and> max_value tree_game (AlphaBetaAgent 0 1 1) 3 NegInf PosInf (- 1) = Inr (Some (Fin 3))"
proof -
  have t: "terminal_test tree_game 3"
    by (simp add: tree_game_def)
  have h: "heuristic tree_game (AlphaBetaAgent 0 1 1) 3 = Some 7"
    by (simp add: heuristic_def tree_game_def AlphaBetaAgent_def BOARD_SIZE_def)
  have u: "utility tree_game 3 (agent_player (AlphaBetaAgent 0 1 1)) = Fin 3"
    by (simp add: tree_game_def)
  from terminal_override [OF t, of "AlphaBetaAgent 0 1 1" NegInf PosInf 0]
    terminal_override [OF t, of "AlphaBetaAgent 0 1 1" NegInf PosInf "- 1"] t h u
  show ?thesis by simp
qed

text \<open>
  C5. At a position that is not terminal, with remaining depth above zero and no legal
  move, the loops run zero times: \<open>min_value\<close> returns \<open>+infinity\<close> and \<open>max_value\<close>
  returns \<open>-infinity\<close>, and nothing is raised.
\<close>

theorem stuck_position_sentinel:
  "\<not> terminal_test g gameState \<Longrightarrow> 0 < depth \<Longrightarrow> actions g gameState = [] \<Longrightarrow>
     min_value g self gameState alpha beta depth = Inr (Some PosInf)
   \<and> max_value g self gameState alpha beta depth = Inr (Some NegInf)"
  by (simp add: min_value.simps max_value.simps)

theorem stuck_position_sentinel_witness:
  "\<not> terminal_test tree_game 6 \<and> (0::int) < 1 \<and> actions tree_game 6 = []
   \<and> min_value tree_game (AlphaBetaAgent 0 1 1) 6 (Fin 3) PosInf 1 = Inr (Some PosInf)
   \<and> max_value tree_game (AlphaBetaAgent 0 1 1) 6 (Fin 3) PosInf 1 = Inr (Some NegInf)"
proof -
  have a: "\<not> terminal_test tree_game 6" and b: "(0::int) < 1" and c: "actions tree_game 6 = []"
    by (simp_all add: tree_game_def)
  from stuck_position_sentinel [OF a b c, of "AlphaBetaAgent 0 1 1" "Fin 3" PosInf] a b c
  show ?thesis by simp
qed

subsection \<open>The search at the root\<close>

text \<open>
  C1. For every position, every depth limit (so every \<open>d \<ge> 1\<close>) and both heuristic
  modes, the root loop of \<open>minimax_decision\<close> ends with \<open>best_score\<close> equal to the score of
  the unpruned minimax search of the same depth with the same evaluator; every move the
  decision returns is a legal move whose unpruned minimax value is that score; and a
  position with a legal move gets a move.
\<close>

theorem alpha_beta_equals_minimax:
  fixes g :: "('s, 'a, 'l) game"
  assumes "h_type self = 0 \<or> h_type self = 1"
  shows "(\<exists>alpha best_move.
            root_loop g self gameState (actions g gameState) NegInf NegInf None depth
              = Inr (alpha, full_root_score g self gameState depth, best_move))
     \<and> (\<forall>rnd move. minimax_decision g self rnd gameState depth = Inr move \<longrightarrow>
            move \<in> set (actions g gameState)
          \<and> full_min_value g self (result g gameState move) (depth - 1)
              = full_root_score g self gameState depth)
     \<and> (actions g gameState \<noteq> [] \<longrightarrow>
            (\<forall>rnd. \<exists>move. minimax_decision g self rnd gameState depth = Inr move))"
proof (intro conjI allI impI)
  show "\<exists>alpha best_move.
      root_loop g self gameState (actions g gameState) NegInf NegInf None depth
        = Inr (alpha, full_root_score g self gameState depth, best_move)"
    by (simp add: root_loop_spec [OF assms] full_root_score_def)
next
  fix rnd move
  assume "minimax_decision g self rnd gameState depth = Inr move"
  from decision_attains [OF assms this]
  show "move \<in> set (actions g gameState)"
    and "full_min_value g self (result g gameState move) (depth - 1)
      = full_root_score g self gameState depth"
    by simp_all
next
  fix rnd
  assume "actions g gameState \<noteq> []"
  from decision_total [OF assms this]
  show "\<exists>move. minimax_decision g self rnd gameState depth = Inr move" .
qed

text \<open>
  In the tree game at depth 3 the pruned step at position 2, called with \<open>alpha = 3\<close>,
  returns 2 after the first successor, where the unpruned value is \<open>-infinity\<close> (the
  second successor is stuck); the root still ends with the minimax score 3, attained by
  move 1.
\<close>

theorem alpha_beta_equals_minimax_witness:
  "(h_type (AlphaBetaAgent 0 1 1) = 0 \<or> h_type (AlphaBetaAgent 0 1 1) = 1)
   \<and> min_value tree_game (AlphaBetaAgent 0 1 1) 2 (Fin 3) PosInf 2 = Inr (Some (Fin 2))
   \<and> full_min_value tree_game (AlphaBetaAgent 0 1 1) 2 2 = NegInf
   \<and> root_loop tree_game (AlphaBetaAgent 0 1 1) 0 (actions tree_game 0) NegInf NegInf None 3
       = Inr (Fin 3, Fin 3, Some 1)
   \<and> full_root_score tree_game (AlphaBetaAgent 0 1 1) 0 3 = Fin 3
   \<and> minimax_decision tree_game (AlphaBetaAgent 0 1 1) 0 0 3 = Inr 1
   \<and> full_min_value tree_game (AlphaBetaAgent 0 1 1) (result tree_game 0 1) (3 - 1) = Fin 3"
proof -
  have h: "h_type (AlphaBetaAgent 0 1 1) = 0 \<or> h_type (AlphaBetaAgent 0 1 1) = 1"
    by (simp add: AlphaBetaAgent_def)
  have p: "min_value tree_game (AlphaBetaAgent 0 1 1) 2 (Fin 3) PosInf 2 = Inr (Some (Fin 2))"
    by (simp add: tree_game_def AlphaBetaAgent_def min_value.simps max_value.simps)
  have f: "full_min_value tree_game (AlphaBetaAgent 0 1 1) 2 2 = NegInf"
    by (simp add: tree_game_def AlphaBetaAgent_def full_min_value.simps full_max_value.simps)
  have rl: "root_loop tree_game (AlphaBetaAgent 0 1 1) 0 (actions tree_game 0) NegInf NegInf None 3
      = Inr (Fin 3, Fin 3, Some 1)"
    by (simp add: tree_game_def AlphaBetaAgent_def min_value.simps max_value.simps Let_def)
  then have dec: "minimax_decision tree_game (AlphaBetaAgent 0 1 1) 0 0 3 = Inr 1"
    by (simp add: minimax_decision_def)
  from alpha_beta_equals_minimax [OF h, of tree_game 0 3] rl dec h p f
  show ?thesis by auto
qed

text \<open>
  C2. Whatever \<open>minimax_decision\<close> returns, from the main loop or from the random
  fallback, is an element of \<open>actions()\<close> of the position; and in both heuristic modes a
  position with at least one legal move does get a move (with no legal move the fallback's
  \<open>random.choice\<close> raises).
\<close>

theorem minimax_decision_legal:
  fixes g :: "('s, 'a, 'l) game"
  shows "(\<forall>move. minimax_decision g self rnd gameState depth = Inr move \<longrightarrow>
            move \<in> set (actions g gameState))
     \<and> ((h_type self = 0 \<or> h_type self = 1) \<and> actions g gameState \<noteq> [] \<longrightarrow>
            (\<exists>move. minimax_decision g self rnd gameState depth = Inr move
               \<and> move \<in> set (actions g gameState)))"
proof (intro conjI allI impI)
  fix move
  assume "minimax_decision g self rnd gameState depth = Inr move"
  then show "move \<in> set (actions g gameState)" by (rule decision_legal)
next
  assume a: "(h_type self = 0 \<or> h_type self = 1) \<and> actions g gameState \<noteq> []"
  then obtain move where m: "minimax_decision g self rnd gameState depth = Inr move"
    using decision_total [of self g gameState rnd depth] by blast
  from decision_legal [OF m] m
  show "\<exists>move. minimax_decision g self rnd gameState depth = Inr move
      \<and> move \<in> set (actions g gameState)"
    by blast
qed

text \<open>
  The main loop's move in the tree game at depth 1, and the fallback's move in the lost
  position (random draw 1), are both legal.
\<close>

theorem minimax_decision_legal_witness:
  "(h_type (AlphaBetaAgent 0 1 1) = 0 \<or> h_type (AlphaBetaAgent 0 1 1) = 1)
   \<and> actions tree_game 0 = [1, 2]
   \<and> minimax_decision tree_game (AlphaBetaAgent 0 1 1) 0 0 1 = Inr 1
   \<and> minimax_decision lose_game (AlphaBetaAgent 0 1 1) 1 0 1 = Inr 2
   \<and> 2 \<in> set (actions lose_game 0)"
proof -
  have h: "h_type (AlphaBetaAgent 0 1 1) = 0 \<or> h_type (AlphaBetaAgent 0 1 1) = 1"
    by (simp add: AlphaBetaAgent_def)
  have a: "actions tree_game 0 = [1, 2]"
    by (simp add: tree_game_def)
  have d1: "minimax_decision tree_game (AlphaBetaAgent 0 1 1) 0 0 1 = Inr 1"
    by (simp add: minimax_decision_def tree_game_def AlphaBetaAgent_def min_value.simps
        heuristic_def BOARD_SIZE_def)
  have d2: "minimax_decision lose_game (AlphaBetaAgent 0 1 1) 1 0 1 = Inr 2"
    by (simp add: minimax_decision_def lose_game_def AlphaBetaAgent_def min_value.simps
        random_choice_def)
  from minimax_decision_legal [of lose_game "AlphaBetaAgent 0 1 1" 1 0 1] d2
  have "2 \<in> set (actions lose_game 0)" by blast
  with h a d1 d2 show ?thesis by simp
qed

text \<open>
  C3, as stated, fails: in the lost position both root moves score \<open>-infinity\<close>, the
  comparison \<open>value > best_score\<close> never holds, and the fallback draws the move at random:
  draw 1 returns the later move 2, draw 0 the earlier move 1.
\<close>

theorem tie_break_counterexample:
  "full_min_value lose_game (AlphaBetaAgent 0 1 1) (result lose_game 0 1) (1 - 1) = NegInf
   \<and> full_min_value lose_game (AlphaBetaAgent 0 1 1) (result lose_game 0 2) (1 - 1) = NegInf
   \<and> actions lose_game 0 = [1, 2]
   \<and> minimax_decision lose_game (AlphaBetaAgent 0 1 1) 1 0 1 = Inr 2
   \<and> minimax_decision lose_game (AlphaBetaAgent 0 1 1) 0 0 1 = Inr 1"
  by (simp add: minimax_decision_def lose_game_def AlphaBetaAgent_def min_value.simps
      full_min_value.simps random_choice_def)

text \<open>
  C3, amended. In both heuristic modes, when the best root score is above \<open>-infinity\<close>,
  \<open>minimax_decision\<close> returns the first move in the order of \<open>actions()\<close> whose score
  (its minimax value at depth \<open>d - 1\<close>) equals the best root score, whatever the random
  draw: a later move of equal score does not replace it.
\<close>

theorem tie_break_first:
  fixes g :: "('s, 'a, 'l) game"
  assumes "h_type self = 0 \<or> h_type self = 1"
    and "NegInf < full_root_score g self gameState depth"
  shows "\<exists>move.
      find (\<lambda>a. full_min_value g self (result g gameState a) (depth - 1)
                  = full_root_score g self gameState depth) (actions g gameState) = Some move
      \<and> (\<forall>rnd. minimax_decision g self rnd gameState depth = Inr move)"
  using assms by (rule decision_first)

text \<open>
  In the tree game at depth 1 both root moves score 7; move 1, the first, is returned for
  the random draws 0 and 1 alike.
\<close>

theorem tie_break_first_witness:
  "(h_type (AlphaBetaAgent 0 1 1) = 0 \<or> h_type (AlphaBetaAgent 0 1 1) = 1)
   \<and> NegInf < full_root_score tree_game (AlphaBetaAgent 0 1 1) 0 1
   \<and> full_min_value tree_game (AlphaBetaAgent 0 1 1) (result tree_game 0 1) (1 - 1) = Fin 7
   \<and> full_min_value tree_game (AlphaBetaAgent 0 1 1) (result tree_game 0 2) (1 - 1) = Fin 7
   \<and> actions tree_game 0 = [1, 2]
   \<and> minimax_decision tree_game (AlphaBetaAgent 0 1 1) 0 0 1 = Inr 1
   \<and> minimax_decision tree_game (AlphaBetaAgent 0 1 1) 1 0 1 = Inr 1"
proof -
  have h: "h_type (AlphaBetaAgent 0 1 1) = 0 \<or> h_type (AlphaBetaAgent 0 1 1) = 1"
    by (simp add: AlphaBetaAgent_def)
  have v: "full_min_value tree_game (AlphaBetaAgent 0 1 1) (result tree_game 0 1) (1 - 1) = Fin 7"
    "full_min_value tree_game (AlphaBetaAgent 0 1 1) (result tree_game 0 2) (1 - 1) = Fin 7"
    "actions tree_game 0 = [1, 2]"
    by (simp_all add: tree_game_def AlphaBetaAgent_def full_min_value.simps heuristic_score_def
        heuristic_def BOARD_SIZE_def)
  have r: "full_root_score tree_game (AlphaBetaAgent 0 1 1) 0 1 = Fin 7"
    using v by (simp add: full_root_score_def)
  then have b: "NegInf < full_root_score tree_game (AlphaBetaAgent 0 1 1) 0 1"
    by simp
  from tie_break_first [OF h b] v r
  have "\<forall>rnd. minimax_decision tree_game (AlphaBetaAgent 0 1 1) rnd 0 1 = Inr 1"
    by simp
  with h b v show ?thesis by simp
qed

text \<open>
  C8, as stated, fails: in the lost position the move list is not empty, yet the root loop
  ends with \<open>best_move\<close> unset (every candidate scores \<open>-infinity\<close>), and the move
  returned is the fallback's random choice.
\<close>

theorem fallback_counterexample:
  "actions lose_game 0 = [1, 2]
   \<and> root_loop lose_game (AlphaBetaAgent 0 1 1) 0 (actions lose_game 0) NegInf NegInf None 1
       = Inr (NegInf, NegInf, None)
   \<and> minimax_decision lose_game (AlphaBetaAgent 0 1 1) 1 0 1 = random_choice 1 (actions lose_game 0)
   \<and> minimax_decision lose_game (AlphaBetaAgent 0 1 1) 1 0 1 = Inr 2"
  by (simp add: minimax_decision_def lose_game_def AlphaBetaAgent_def min_value.simps
      random_choice_def Let_def)

text \<open>
  C8, amended. In both heuristic modes the root loop leaves \<open>best_move\<close> unset, and the
  random fallback decides, exactly when every root move has the score \<open>-infinity\<close> (which
  includes the empty move list); otherwise the move recorded by the main loop is returned,
  whatever the random draw, and the fallback does not override it.
\<close>

theorem fallback_exactly_when_all_lost:
  fixes g :: "('s, 'a, 'l) game"
  assumes "h_type self = 0 \<or> h_type self = 1"
  shows "\<exists>alpha best_move.
      root_loop g self gameState (actions g gameState) NegInf NegInf None depth
        = Inr (alpha, full_root_score g self gameState depth, best_move)
      \<and> ((best_move = None)
          = (\<forall>a\<in>set (actions g gameState).
               full_min_value g self (result g gameState a) (depth - 1) = NegInf))
      \<and> (\<forall>rnd. minimax_decision g self rnd gameState depth
            = (case best_move of
                 None \<Rightarrow> random_choice rnd (actions g gameState)
               | Some move \<Rightarrow> Inr move))"
proof -
  let ?W = "\<lambda>a. full_min_value g self (result g gameState a) (depth - 1)"
  let ?M = "full_root_score g self gameState depth"
  let ?bm = "if NegInf < ?M then find (\<lambda>a. ?W a = ?M) (actions g gameState) else None"
  have rl: "root_loop g self gameState (actions g gameState) NegInf NegInf None depth
      = Inr (?M, ?M, ?bm)"
    by (simp add: root_loop_spec [OF assms] full_root_score_def)
  have lost: "(?M = NegInf) = (\<forall>a\<in>set (actions g gameState). ?W a = NegInf)"
    unfolding full_root_score_def by (rule fold_max_NegInf_iff)
  have unset: "(?bm = None) = (\<forall>a\<in>set (actions g gameState). ?W a = NegInf)"
  proof (cases "NegInf < ?M")
    case True
    from decision_first [OF assms True] obtain m where
      "find (\<lambda>a. ?W a = ?M) (actions g gameState) = Some m"
      by blast
    with True have bm: "?bm = Some m" by simp
    from True have "?M \<noteq> NegInf" by auto
    with lost have "\<not> (\<forall>a\<in>set (actions g gameState). ?W a = NegInf)" by simp
    with bm show ?thesis by (simp only: option.simps)
  next
    case False
    then have "?M = NegInf" by (simp add: score_gt_NegInf_iff)
    with False lost show ?thesis by simp
  qed
  have dec: "\<forall>rnd. minimax_decision g self rnd gameState depth
      = (case ?bm of None \<Rightarrow> random_choice rnd (actions g gameState) | Some move \<Rightarrow> Inr move)"
    by (simp add: minimax_decision_def rl)
  show ?thesis
  proof (intro exI conjI)
    show "root_loop g self gameState (actions g gameState) NegInf NegInf None depth
      = Inr (?M, ?M, ?bm)" by (rule rl)
    show "(?bm = None) = (\<forall>a\<in>set (actions g gameState). ?W a = NegInf)" by (rule unset)
    show "\<forall>rnd. minimax_decision g self rnd gameState depth
      = (case ?bm of None \<Rightarrow> random_choice rnd (actions g gameState) | Some move \<Rightarrow> Inr move)"
      by (rule dec)
  qed
qed

text \<open>
  In the tree game at depth 2 the loop records move 1 and the decision is move 1 for the
  random draw 5 too; in the lost position nothing is recorded and the draw decides.
\<close>

theorem fallback_exactly_when_all_lost_witness:
  "(h_type (AlphaBetaAgent 0 1 1) = 0 \<or> h_type (AlphaBetaAgent 0 1 1) = 1)
   \<and> root_loop tree_game (AlphaBetaAgent 0 1 1) 0 (actions tree_game 0) NegInf NegInf None 2
       = Inr (Fin 3, Fin 3, Some 1)
   \<and> minimax_decision tree_game (AlphaBetaAgent 0 1 1) 5 0 2 = Inr 1
   \<and> root_loop lose_game (AlphaBetaAgent 0 1 1) 0 (actions lose_game 0) NegInf NegInf None 1
       = Inr (NegInf, NegInf, None)
   \<and> minimax_decision lose_game (AlphaBetaAgent 0 1 1) 5 0 1 = random_choice 5 (actions lose_game 0)"
proof -
  have h: "h_type (AlphaBetaAgent 0 1 1) = 0 \<or> h_type (AlphaBetaAgent 0 1 1) = 1"
    by (simp add: AlphaBetaAgent_def)
  have r1: "root_loop tree_game (AlphaBetaAgent 0 1 1) 0 (actions tree_game 0) NegInf NegInf None 2
      = Inr (Fin 3, Fin 3, Some 1)"
    by (simp add: tree_game_def AlphaBetaAgent_def min_value.simps max_value.simps Let_def)
  have r2: "root_loop lose_game (AlphaBetaAgent 0 1 1) 0 (actions lose_game 0) NegInf NegInf None 1
      = Inr (NegInf, NegInf, None)"
    by (simp add: lose_game_def AlphaBetaAgent_def min_value.simps Let_def)
  from fallback_exactly_when_all_lost [OF h, of tree_game 0 2] r1
  have d1: "minimax_decision tree_game (AlphaBetaAgent 0 1 1) 5 0 2 = Inr 1"
    by auto
  from fallback_exactly_when_all_lost [OF h, of lose_game 0 1] r2
  have d2: "minimax_decision lose_game (AlphaBetaAgent 0 1 1) 5 0 1 = random_choice 5 (actions lose_game 0)"
    by auto
  from h r1 r2 d1 d2 show ?thesis by simp
qed

subsection \<open>Iterative deepening\<close>

text \<open>
  C7, as stated, fails: at position 6 of the tree game, which is not terminal and has no
  legal move, the search of depth 1 raises \<open>IndexError\<close> in the fallback and \<open>compute\<close>
  yields nothing; and at position 0 of the tree game with \<open>h_type = 2\<close> the search of
  depth 1 raises \<open>TypeError\<close> at the root's \<open>max\<close>, again before anything is yielded.
\<close>

theorem compute_counterexample:
  "\<not> terminal_test tree_game 6
   \<and> compute tree_game (AlphaBetaAgent 0 1 1) zero_draws 6 1 = ([], Some IndexError)
   \<and> compute tree_game (AlphaBetaAgent 0 1 2) zero_draws 0 1 = ([], Some TypeError)"
  by (simp add: compute_def minimax_decision_def tree_game_def AlphaBetaAgent_def
      min_value.simps heuristic_def random_choice_def zero_draws_def Let_def)

text \<open>
  C7, amended. In both heuristic modes, at a position with at least one legal move,
  \<open>compute\<close> yields exactly \<open>max_depth\<close> moves and ends without an exception; the move
  yielded in place \<open>i\<close> (counting from 0) is the completed decision of the search of depth
  \<open>i + 1\<close>, so the depths run 1, 2, ..., \<open>max_depth\<close> in this order. At a position with no
  legal move, for every \<open>h_type\<close> and every \<open>max_depth \<ge> 1\<close>, the search of depth 1
  raises \<open>IndexError\<close> and \<open>compute\<close> yields nothing.
\<close>

theorem compute_yields_each_depth:
  fixes g :: "('s, 'a, 'l) game"
  shows "((h_type self = 0 \<or> h_type self = 1) \<and> actions g gameState \<noteq> [] \<longrightarrow>
            (\<exists>moves. compute g self rnd gameState max_depth = (moves, None)
               \<and> length moves = nat max_depth
               \<and> (\<forall>i<nat max_depth.
                     minimax_decision g self (rnd (int i + 1)) gameState (int i + 1)
                       = Inr (moves ! i))))
     \<and> (actions g gameState = [] \<and> 1 \<le> max_depth \<longrightarrow>
            minimax_decision g self (rnd 1) gameState 1 = Inl IndexError
          \<and> compute g self rnd gameState max_depth = ([], Some IndexError))"
proof (intro conjI impI)
  assume a: "(h_type self = 0 \<or> h_type self = 1) \<and> actions g gameState \<noteq> []"
  then have "\<forall>d\<in>set [1..max_depth]. \<exists>m. minimax_decision g self (rnd d) gameState d = Inr m"
    using decision_total [of self g gameState] by blast
  from compute_depths_total [OF this] obtain moves where
    c: "compute_depths g self rnd gameState [1..max_depth] = (moves, None)"
    and l: "length moves = length [1..max_depth]"
    and n: "\<forall>i<length [1..max_depth].
      minimax_decision g self (rnd ([1..max_depth] ! i)) gameState ([1..max_depth] ! i)
        = Inr (moves ! i)"
    by blast
  have len: "length [1..max_depth] = nat max_depth" by simp
  have "minimax_decision g self (rnd (int i + 1)) gameState (int i + 1) = Inr (moves ! i)"
    if "i < nat max_depth" for i
  proof -
    from that have "1 + int i \<le> max_depth" by linarith
    then have "[1..max_depth] ! i = int i + 1" by (simp add: nth_upto)
    with n that len show ?thesis by metis
  qed
  with c l len
  show "\<exists>moves. compute g self rnd gameState max_depth = (moves, None)
      \<and> length moves = nat max_depth
      \<and> (\<forall>i<nat max_depth.
            minimax_decision g self (rnd (int i + 1)) gameState (int i + 1) = Inr (moves ! i))"
    by (simp add: compute_def)
next
  assume "actions g gameState = [] \<and> 1 \<le> max_depth"
  then show "minimax_decision g self (rnd 1) gameState 1 = Inl IndexError"
    by (simp add: decision_no_moves)
next
  assume "actions g gameState = [] \<and> 1 \<le> max_depth"
  then show "compute g self rnd gameState max_depth = ([], Some IndexError)"
    by (simp add: compute_no_moves)
qed

text \<open>
  In the tree game \<open>compute\<close> with \<open>max_depth = 2\<close> yields the decisions of depths 1 and
  2 at position 0, and nothing at position 6, with \<open>h_type\<close> 1 and 2 alike.
\<close>

theorem compute_yields_each_depth_witness:
  "(h_type (AlphaBetaAgent 0 1 1) = 0 \<or> h_type (AlphaBetaAgent 0 1 1) = 1)
   \<and> actions tree_game 0 \<noteq> []
   \<and> compute tree_game (AlphaBetaAgent 0 1 1) zero_draws 0 2 = ([1, 1], None)
   \<and> minimax_decision tree_game (AlphaBetaAgent 0 1 1) (zero_draws 1) 0 1 = Inr 1
   \<and> minimax_decision tree_game (AlphaBetaAgent 0 1 1) (zero_draws 2) 0 2 = Inr 1
   \<and> actions tree_game 6 = [] \<and> (1::int) \<le> 2
   \<and> compute tree_game (AlphaBetaAgent 0 1 1) zero_draws 6 2 = ([], Some IndexError)
   \<and> compute tree_game (AlphaBetaAgent 0 1 2) zero_draws 6 2 = ([], Some IndexError)"
proof -
  have h: "h_type (AlphaBetaAgent 0 1 1) = 0 \<or> h_type (AlphaBetaAgent 0 1 1) = 1"
    by (simp add: AlphaBetaAgent_def)
  have a: "actions tree_game 0 \<noteq> []"
    by (simp add: tree_game_def)
  have e: "actions tree_game 6 = []"
    by (simp add: tree_game_def)
  have d1: "minimax_decision tree_game (AlphaBetaAgent 0 1 1) (zero_draws 1) 0 1 = Inr 1"
    by (simp add: minimax_decision_def tree_game_def AlphaBetaAgent_def min_value.simps
        heuristic_def BOARD_SIZE_def Let_def)
  have d2: "minimax_decision tree_game (AlphaBetaAgent 0 1 1) (zero_draws 2) 0 2 = Inr 1"
    by (simp add: minimax_decision_def tree_game_def AlphaBetaAgent_def min_value.simps
        max_value.simps Let_def)
  from compute_yields_each_depth [of "AlphaBetaAgent 0 1 1" tree_game 0 zero_draws 2] h a
  obtain moves where
    c: "compute tree_game (AlphaBetaAgent 0 1 1) zero_draws 0 2 = (moves, None)"
    and l: "length moves = 2"
    and n: "\<forall>i<2. minimax_decision tree_game (AlphaBetaAgent 0 1 1) (zero_draws (int i + 1)) 0 (int i + 1)
        = Inr (moves ! i)"
    by auto
  from n [rule_format, of 0] n [rule_format, of 1] d1 d2
  have "moves ! 0 = 1" "moves ! 1 = 1" by simp_all
  with l have m: "moves = [1, 1]"
    by (cases moves; cases "tl moves"; cases "tl (tl moves)") auto
  from compute_yields_each_depth [of "AlphaBetaAgent 0 1 1" tree_game 6 zero_draws 2] e
  have n1: "compute tree_game (AlphaBetaAgent 0 1 1) zero_draws 6 2 = ([], Some IndexError)"
    by simp
  from compute_yields_each_depth [of "AlphaBetaAgent 0 1 2" tree_game 6 zero_draws 2] e
  have n2: "compute tree_game (AlphaBetaAgent 0 1 2) zero_draws 6 2 = ([], Some IndexError)"
    by simp
  from m c h a e d1 d2 n1 n2 show ?thesis by simp
qed

end
